theory Spec2Isabelle
  imports Complex_Main "HOL-Library.Word" "HOL-Library.Log_Nat" "HOL-Library.Char_ord"
    "HOL-Library.List_Lexorder" "HOL-Library.Product_Lexorder"
begin

unbundle bit_operations_syntax

section \<open>The MIDI converter: data model\<close>

text \<open>
  The development embeds \<^verbatim>\<open>src/midi_converter.py\<close>, class \<^verbatim>\<open>MidiFile\<close>.
  The object is a record holding the fields that \<^verbatim>\<open>__init__\<close> creates; every method
  takes the record and returns the updated one. A Python exception is a value of
  \<open>error\<close>: a method that can raise returns \<open>error + 'a\<close> with \<open>Inl\<close> for the raise.

  \<^item> \<^verbatim>\<open>self.bytes\<close> is a \<^verbatim>\<open>bytearray\<close>: a list of 8-bit words, read as Python ints
    with \<open>uint\<close>.
  \<^item> \<^verbatim>\<open>self.itr\<close> starts at 0 and is only ever increased, so it is a natural number;
    lengths read from the buffer are Python ints (\<open>int\<close>), never negative.
  \<^item> \<^verbatim>\<open>self.notes\<close> is the field \<open>midi_notes\<close> (\<open>notes\<close> is a reserved word of
    Isabelle). A note is the pair of its time and its symbol string.
  \<^item> Python floats are the rationals they denote: \<open>to_double\<close> rounds a rational to
    the nearest double (53-bit significand, ties to even), which is what each float
    operation of the source does with its exact result. The sign of a zero is not
    represented: \<^verbatim>\<open>-0.0 == 0.0\<close> in Python, and no comparison of the program tells
    them apart. No operation of the program yields an infinity or a NaN.
  \<^item> \<^verbatim>\<open>self.filename\<close> and \<^verbatim>\<open>self.start_sequence\<close> never change; the first is left
    out and the second is the constant \<open>start_sequence\<close>.
\<close>

type_synonym byte = "8 word"

datatype error = IndexError | ZeroDivisionError | OverflowError

record MidiFile =
  bytes :: "byte list"
  header_length :: int
  format :: int
  tracks :: int
  division :: int
  division_type :: int
  tempo :: int
  itr :: nat
  running_status :: int
  running_status_set :: bool
  delta_time :: int
  midi_notes :: "(rat \<times> string) list"
  start_counter :: "nat list"

definition VIRTUAL_PIANO_SCALE :: string where
  "VIRTUAL_PIANO_SCALE = ''zZxXcvVbBnNmaAsSdfFgGhHjqQwWerRtTyYuqQwWerRtTyYuqQwWerRtTyYu))''"

definition start_sequence :: "int list list" where
  "start_sequence = [[0x4D, 0x54, 0x68, 0x64], [0x4D, 0x54, 0x72, 0x6B], [0xFF]]"

subsection \<open>Python floats\<close>

definition pow2 :: "int \<Rightarrow> rat" where
  "pow2 e = (if 0 \<le> e then 2 ^ nat e else 1 / 2 ^ nat (- e))"

text \<open>Python's \<^verbatim>\<open>round(x)\<close> on a float: the nearest integer, a tie going to the even one.\<close>

definition round_half_even :: "rat \<Rightarrow> int" where
  "round_half_even x = (let f = \<lfloor>x\<rfloor>; r = x - of_int f in
     if r < 1/2 then f else if r > 1/2 then f + 1 else if even f then f else f + 1)"

text \<open>The exponent \<open>e\<close> with \<open>2 ^ e \<le> \<bar>x\<bar> < 2 ^ (e + 1)\<close>, for \<open>x \<noteq> 0\<close>.\<close>

definition binade :: "rat \<Rightarrow> int" where
  "binade x = (case quotient_of \<bar>x\<bar> of (a, b) \<Rightarrow>
     let e = bitlen a - bitlen b in if pow2 e \<le> \<bar>x\<bar> then e else e - 1)"

text \<open>
  The double nearest to a rational (round to nearest, ties to even, 53 significant
  bits), with an unbounded exponent; the operations below check the range.
\<close>

definition to_double :: "rat \<Rightarrow> rat" where
  "to_double x = (if x = 0 then 0 else
     let e = binade x in of_int (round_half_even (x / pow2 (e - 52))) * pow2 (e - 52))"

text \<open>
  \<^verbatim>\<open>a * b\<close> on floats and \<^verbatim>\<open>a / b\<close> on ints: the exact result, rounded once.
  An int operand of a float product is converted to a float first. The division
  raises on a zero divisor and on a quotient too large for a double (one of
  magnitude \<open>2 ^ 1024\<close> or more, after rounding); its operands
  here are a tick count and a division of at most 15 bits, so a quotient other than 0
  is far from the subnormal range. The only float product of the program has a
  24-bit integer as one factor and cannot overflow.
\<close>

definition float_of_int :: "int \<Rightarrow> rat" where
  "float_of_int n = to_double (of_int n)"

definition float_mul :: "rat \<Rightarrow> rat \<Rightarrow> rat" where
  "float_mul a b = to_double (a * b)"

definition int_truediv :: "int \<Rightarrow> int \<Rightarrow> error + rat" where
  "int_truediv a b =
     (if b = 0 then Inl ZeroDivisionError
      else let r = to_double (of_int a / of_int b)
           in if r \<noteq> 0 \<and> binade r \<ge> 1024 then Inl OverflowError else Inr r)"

section \<open>The byte cursor\<close>

text \<open>\<^verbatim>\<open>self.bytes[i]\<close>: \<^verbatim>\<open>IndexError\<close> past the end of the buffer.\<close>

definition byte_at :: "MidiFile \<Rightarrow> nat \<Rightarrow> error + int" where
  "byte_at s i = (if i < length (bytes s) then Inr (uint (bytes s ! i)) else Inl IndexError)"

text \<open>\<^verbatim>\<open>skip\<close>\<close>

definition skip :: "MidiFile \<Rightarrow> nat \<Rightarrow> MidiFile" where
  "skip s i = s\<lparr>itr := itr s + i\<rparr>"

text \<open>
  \<^verbatim>\<open>xs[a:a + n]\<close> for \<open>0 \<le> a\<close> and \<open>0 \<le> n\<close>: a Python slice never raises, it stops at the
  end of the sequence.
\<close>

definition py_slice :: "'a list \<Rightarrow> nat \<Rightarrow> nat \<Rightarrow> 'a list" where
  "py_slice xs a n = take n (drop a xs)"

text \<open>
  \<^verbatim>\<open>get_int\<close>: the loop over the slice is a left fold; the position then moves by
  \<open>sz\<close> (the source's \<^verbatim>\<open>size\<close>) whatever the slice held.
\<close>

definition get_int :: "MidiFile \<Rightarrow> nat \<Rightarrow> int \<times> MidiFile" where
  "get_int s sz =
     (foldl (\<lambda>val n. push_bit 8 val + uint n) 0 (py_slice (bytes s) (itr s) sz),
      s\<lparr>itr := itr s + sz\<rparr>)"

text \<open>
  \<^verbatim>\<open>read_length\<close>: the \<^verbatim>\<open>while cont_flag\<close> loop, with the running \<open>length\<close> as an
  argument. Both branches add the low seven bits; the loop ends at the first byte
  whose high bit is clear, and reading past the buffer raises.
\<close>

function read_length_loop :: "MidiFile \<Rightarrow> int \<Rightarrow> error + (int \<times> MidiFile)" where
  "read_length_loop s len =
     (case byte_at s (itr s) of
        Inl e \<Rightarrow> Inl e
      | Inr b \<Rightarrow>
          if drop_bit 7 (b AND 0x80) = 1
          then read_length_loop (s\<lparr>itr := itr s + 1\<rparr>) (push_bit 7 len + (b AND 0x7F))
          else Inr (push_bit 7 len + (b AND 0x7F), s\<lparr>itr := itr s + 1\<rparr>))"
  by pat_completeness auto
termination
  by (relation "measure (\<lambda>(s, len). length (bytes s) - itr s)")
    (auto simp: byte_at_def split: if_splits)

declare read_length_loop.simps [simp del]

definition read_length :: "MidiFile \<Rightarrow> error + (int \<times> MidiFile)" where
  "read_length s = read_length_loop s 0"

lemma get_int_bytes [simp]: "bytes (snd (get_int s n)) = bytes s"
  by (simp add: get_int_def)

lemma get_int_itr [simp]: "itr (snd (get_int s n)) = itr s + n"
  by (simp add: get_int_def)

lemma read_length_loop_advances:
  "read_length_loop s len = Inr (v, s') \<Longrightarrow>
     bytes s' = bytes s \<and> itr s < itr s' \<and> itr s' \<le> length (bytes s)"
proof (induction s len rule: read_length_loop.induct)
  case (1 s len)
  from "1.prems" obtain b where b: "byte_at s (itr s) = Inr b"
    by (subst (asm) read_length_loop.simps) (auto split: sum.splits)
  then have inside: "itr s < length (bytes s)"
    by (auto simp: byte_at_def split: if_splits)
  show ?case
  proof (cases "drop_bit 7 (b AND 0x80) = 1")
    case True
    with "1.prems" b have "read_length_loop (s\<lparr>itr := itr s + 1\<rparr>) (push_bit 7 len + (b AND 0x7F)) = Inr (v, s')"
      by (subst (asm) read_length_loop.simps) simp
    from "1.IH" [OF b True this] show ?thesis by simp
  next
    case False
    with "1.prems" b have "s' = s\<lparr>itr := itr s + 1\<rparr>"
      by (subst (asm) read_length_loop.simps) simp
    with inside show ?thesis by simp
  qed
qed

lemma read_length_advances:
  "read_length s = Inr (v, s') \<Longrightarrow>
     bytes s' = bytes s \<and> itr s < itr s' \<and> itr s' \<le> length (bytes s)"
  unfolding read_length_def by (rule read_length_loop_advances)

section \<open>The header chunk\<close>

text \<open>\<^verbatim>\<open>read_mthd\<close>; \<open>dv\<close> is the source's \<^verbatim>\<open>div\<close>.\<close>

definition read_mthd :: "MidiFile \<Rightarrow> MidiFile" where
  "read_mthd s =
     (case get_int s 4 of (hl, s1) \<Rightarrow>
      case get_int (s1\<lparr>header_length := hl\<rparr>) 2 of (fmt, s2) \<Rightarrow>
      case get_int (s2\<lparr>format := fmt\<rparr>) 2 of (trk, s3) \<Rightarrow>
      case get_int (s3\<lparr>tracks := trk\<rparr>) 2 of (dv, s4) \<Rightarrow>
        s4\<lparr>division_type := drop_bit 16 (dv AND 0x8000), division := dv AND 0x7FFF\<rparr>)"

section \<open>Meta events\<close>

text \<open>
  \<^verbatim>\<open>read_midi_meta_event\<close>. The event name looked up in \<^verbatim>\<open>TYPE_DICT\<close> is never used and
  the lookup cannot raise, so it is left out. The result is the returned flag and the
  state. The tempo is \<^verbatim>\<open>round(self.get_int(3) * 0.00024)\<close>: the int is converted to
  a float, multiplied by the double nearest to 0.00024, and rounded.
\<close>

definition set_tempo_value :: "int \<Rightarrow> int" where
  "set_tempo_value n = round_half_even (float_mul (float_of_int n) (to_double (24 / 100000)))"

definition read_midi_meta_event :: "MidiFile \<Rightarrow> int \<Rightarrow> error + (bool \<times> MidiFile)" where
  "read_midi_meta_event s delta_t =
     (case byte_at s (itr s) of
        Inl e \<Rightarrow> Inl e
      | Inr event_type \<Rightarrow>
         (case read_length (s\<lparr>itr := itr s + 1\<rparr>) of
            Inl e \<Rightarrow> Inl e
          | Inr (len, s1) \<Rightarrow>
              if event_type = 0x2F then Inr (False, s1\<lparr>itr := itr s1 + 2\<rparr>)
              else if event_type \<in> set [0x01, 0x02, 0x03, 0x04, 0x05, 0x06, 0x07, 0x08, 0x09, 0x0A, 0x0C]
              then Inr (True, s1)
              else if event_type = 0x51
              then (case get_int s1 3 of (n, s2) \<Rightarrow> Inr (True, s2\<lparr>tempo := set_tempo_value n\<rparr>))
              else Inr (True, s1\<lparr>itr := itr s1 + nat len\<rparr>)))"

section \<open>Voice events\<close>

text \<open>\<^verbatim>\<open>map_key_to_piano\<close>: the two \<^verbatim>\<open>while\<close> loops, one after the other.\<close>

function map_key_down :: "int \<Rightarrow> int" where
  "map_key_down mapped_key =
     (if mapped_key \<ge> int (length VIRTUAL_PIANO_SCALE) then map_key_down (mapped_key - 12)
      else mapped_key)"
  by pat_completeness auto
termination
  by (relation "measure (\<lambda>m. nat (m + 12))") auto

declare map_key_down.simps [simp del]

function map_key_up :: "int \<Rightarrow> int" where
  "map_key_up mapped_key = (if mapped_key < 0 then map_key_up (mapped_key + 12) else mapped_key)"
  by pat_completeness auto
termination
  by (relation "measure (\<lambda>m. nat (- m))") auto

declare map_key_up.simps [simp del]

definition map_key_to_piano :: "int \<Rightarrow> int" where
  "map_key_to_piano key = map_key_up (map_key_down (key - 36))"

text \<open>\<^verbatim>\<open>self.VIRTUAL_PIANO_SCALE[k]\<close>: Python indexing, a negative index counting from the end.\<close>

definition scale_at :: "int \<Rightarrow> error + char" where
  "scale_at k =
     (let n = int (length VIRTUAL_PIANO_SCALE); j = (if k < 0 then n + k else k)
      in if 0 \<le> j \<and> j < n then Inr (VIRTUAL_PIANO_SCALE ! nat j) else Inl IndexError)"

text \<open>
  \<^verbatim>\<open>read_voice_event\<close>. \<open>read_status\<close> is its first \<^verbatim>\<open>if\<close> statement: it gives the
  source's \<^verbatim>\<open>event_type\<close>, from the running status or from the buffer.
  \<^verbatim>\<open>channel\<close> is computed and never used. The appended note evaluates the time first
  (the division can raise), then the symbol.
\<close>

definition read_status :: "MidiFile \<Rightarrow> error + (int \<times> MidiFile)" where
  "read_status s =
     (case byte_at s (itr s) of
        Inl e \<Rightarrow> Inl e
      | Inr b \<Rightarrow>
          if b < 0x80 \<and> running_status_set s then Inr (running_status s, s)
          else Inr (b, (if 0x80 \<le> b \<and> b \<le> 0xF7
                        then s\<lparr>running_status := b, running_status_set := True\<rparr>
                        else s)\<lparr>itr := itr s + 1\<rparr>))"

definition read_voice_event :: "MidiFile \<Rightarrow> int \<Rightarrow> error + MidiFile" where
  "read_voice_event s delta_t =
     (case read_status s of
        Inl e \<Rightarrow> Inl e
      | Inr (event_type, s1) \<Rightarrow>
          if drop_bit 4 event_type = 0x9 then
            (case byte_at s1 (itr s1) of
               Inl e \<Rightarrow> Inl e
             | Inr key \<Rightarrow>
                (case byte_at s1 (itr s1 + 1) of
                   Inl e \<Rightarrow> Inl e
                 | Inr velocity \<Rightarrow>
                    (let s2 = s1\<lparr>itr := itr s1 + 2\<rparr>; mapped_key = map_key_to_piano key in
                     if velocity > 0 then
                       (case int_truediv (delta_time s2) (division s2) of
                          Inl e \<Rightarrow> Inl e
                        | Inr t \<Rightarrow>
                           (case scale_at mapped_key of
                              Inl e \<Rightarrow> Inl e
                            | Inr c \<Rightarrow> Inr (s2\<lparr>midi_notes := midi_notes s2 @ [(t, [c])]\<rparr>)))
                     else Inr s2)))
          else if drop_bit 4 event_type \<notin> {0x8, 0x9, 0xA, 0xB, 0xD, 0xE}
          then Inr (s1\<lparr>itr := itr s1 + 1\<rparr>)
          else Inr (s1\<lparr>itr := itr s1 + 2\<rparr>))"

lemma read_midi_meta_event_advances:
  "read_midi_meta_event s d = Inr (cf, s') \<Longrightarrow> bytes s' = bytes s \<and> itr s < itr s'"
  by (auto simp: read_midi_meta_event_def get_int_def split: sum.splits if_splits prod.splits
      dest!: read_length_advances)

lemma read_status_advances:
  "read_status s = Inr (ev, s') \<Longrightarrow> bytes s' = bytes s \<and> itr s \<le> itr s'"
  by (auto simp: read_status_def split: sum.splits if_splits)

lemma read_voice_event_advances:
  "read_voice_event s d = Inr s' \<Longrightarrow> bytes s' = bytes s \<and> itr s < itr s'"
  by (auto simp: read_voice_event_def Let_def split: sum.splits if_splits prod.splits
      dest!: read_status_advances)

section \<open>Track chunks\<close>

text \<open>
  One pass of the \<^verbatim>\<open>while\<close> loop of \<^verbatim>\<open>read_midi_track_event\<close>: the body, giving the
  new \<^verbatim>\<open>continue_flag\<close> and the state.
\<close>

definition track_event :: "MidiFile \<Rightarrow> bool \<Rightarrow> error + (bool \<times> MidiFile)" where
  "track_event s continue_flag =
     (case read_length s of
        Inl e \<Rightarrow> Inl e
      | Inr (delta_t, s1) \<Rightarrow>
         (let s2 = s1\<lparr>delta_time := delta_time s1 + delta_t\<rparr> in
          case byte_at s2 (itr s2) of
            Inl e \<Rightarrow> Inl e
          | Inr b \<Rightarrow>
              if b = 0xFF then read_midi_meta_event (s2\<lparr>itr := itr s2 + 1\<rparr>) delta_t
              else if 0xF0 \<le> b \<and> b \<le> 0xF7
              then Inr (continue_flag, s2\<lparr>running_status_set := False, running_status := - 1\<rparr>)
              else (case read_voice_event s2 delta_t of
                      Inl e \<Rightarrow> Inl e
                    | Inr s3 \<Rightarrow> Inr (continue_flag, s3))))"

lemma track_event_advances:
  "track_event s cf = Inr (cf', s') \<Longrightarrow>
     bytes s' = bytes s \<and> itr s < itr s' \<and> itr s < length (bytes s)"
  by (auto simp: track_event_def Let_def split: sum.splits if_splits
      dest!: read_length_advances read_midi_meta_event_advances read_voice_event_advances)

text \<open>
  The loop itself, with \<open>start\<close>, \<open>len\<close> (the source's \<^verbatim>\<open>length\<close>) and \<open>continue_flag\<close>
  as arguments. Every pass reads a delta time, which consumes at least one byte of the
  buffer or raises, so the loop ends.
\<close>

function track_loop :: "nat \<Rightarrow> int \<Rightarrow> bool \<Rightarrow> MidiFile \<Rightarrow> error + MidiFile" where
  "track_loop start len continue_flag s =
     (if len > int (itr s) - int start \<and> continue_flag then
        (case track_event s continue_flag of
           Inl e \<Rightarrow> Inl e
         | Inr (cf, s') \<Rightarrow> track_loop start len cf s')
      else Inr s)"
  by pat_completeness auto
termination
proof (relation "measure (\<lambda>(start, len, cf, s). length (bytes s) - itr s)", goal_cases)
  case 1
  show ?case by simp
next
  case (2 start len continue_flag s x2 cf s')
  then have "bytes s' = bytes s \<and> itr s < itr s' \<and> itr s < length (bytes s)"
    by (auto dest: track_event_advances)
  then show ?case by auto
qed

declare track_loop.simps [simp del]

text \<open>\<^verbatim>\<open>read_midi_track_event\<close>: after the loop the position is forced to the chunk's end.\<close>

definition read_midi_track_event :: "MidiFile \<Rightarrow> int \<Rightarrow> error + MidiFile" where
  "read_midi_track_event s len =
     (case track_loop (itr s) len True s of
        Inl e \<Rightarrow> Inl e
      | Inr s' \<Rightarrow> Inr (s'\<lparr>itr := itr s + nat len\<rparr>))"

definition read_mtrk :: "MidiFile \<Rightarrow> error + MidiFile" where
  "read_mtrk s = (case get_int s 4 of (len, s1) \<Rightarrow> read_midi_track_event s1 len)"

lemma track_loop_bytes: "track_loop start len cf s = Inr s' \<Longrightarrow> bytes s' = bytes s"
proof (induction start len cf s rule: track_loop.induct)
  case (1 start len cf s)
  show ?case
  proof (cases "len > int (itr s) - int start \<and> cf")
    case False
    with "1.prems" show ?thesis by (subst (asm) track_loop.simps) simp
  next
    case True
    with "1.prems" obtain cf' s1 where ev: "track_event s cf = Inr (cf', s1)"
      and r: "track_loop start len cf' s1 = Inr s'"
      by (subst (asm) track_loop.simps) (auto split: sum.splits)
    from "1.IH" [OF True ev refl r] ev show ?thesis
      by (auto dest: track_event_advances)
  qed
qed

lemma read_mtrk_advances: "read_mtrk s = Inr s' \<Longrightarrow> bytes s' = bytes s \<and> itr s \<le> itr s'"
  by (auto simp: read_mtrk_def read_midi_track_event_def get_int_def
      split: sum.splits prod.splits dest!: track_loop_bytes)

lemma read_mthd_advances: "bytes (read_mthd s) = bytes s \<and> itr s \<le> itr (read_mthd s)"
  by (simp add: read_mthd_def get_int_def split: prod.splits)

section \<open>The chunk scanner\<close>

text \<open>\<^verbatim>\<open>check_start_sequence\<close>\<close>

definition check_start_sequence :: "MidiFile \<Rightarrow> bool" where
  "check_start_sequence s =
     list_ex (\<lambda>(seq, count). length seq = count) (zip start_sequence (start_counter s))"

text \<open>\<^verbatim>\<open>self.start_sequence[i][k]\<close>, for \<open>i\<close> in range.\<close>

definition sequence_at :: "nat \<Rightarrow> nat \<Rightarrow> error + int" where
  "sequence_at i k =
     (if k < length (start_sequence ! i) then Inr (start_sequence ! i ! k) else Inl IndexError)"

text \<open>
  The \<^verbatim>\<open>for i in range(len(self.start_sequence))\<close> loop inside \<^verbatim>\<open>read_events\<close>, over
  the list of indices still to visit.
\<close>

fun match_start :: "nat list \<Rightarrow> MidiFile \<Rightarrow> error + MidiFile" where
  "match_start [] s = Inr s"
| "match_start (i # rest) s =
     (case byte_at s (itr s) of
        Inl e \<Rightarrow> Inl e
      | Inr b \<Rightarrow>
         (case sequence_at i (start_counter s ! i) of
            Inl e \<Rightarrow> Inl e
          | Inr c \<Rightarrow>
              match_start rest
                (if b = c
                 then s\<lparr>start_counter := (start_counter s)[i := start_counter s ! i + 1]\<rparr>
                 else s\<lparr>start_counter := (start_counter s)[i := 0]\<rparr>)))"

text \<open>
  One pass of the inner \<^verbatim>\<open>while\<close> loop of \<^verbatim>\<open>read_events\<close>, in two parts: \<open>scan_byte\<close>
  matches the current byte against the three signatures and moves on; \<open>dispatch\<close> calls
  the handler of a signature that is now complete.
\<close>

definition scan_byte :: "MidiFile \<Rightarrow> error + MidiFile" where
  "scan_byte s =
     (case match_start [0..<length start_sequence] s of
        Inl e \<Rightarrow> Inl e
      | Inr s1 \<Rightarrow> Inr (if itr s1 + 1 < length (bytes s1) then s1\<lparr>itr := itr s1 + 1\<rparr> else s1))"

definition dispatch :: "MidiFile \<Rightarrow> error + MidiFile" where
  "dispatch s =
     (if start_counter s ! 0 = 4 then Inr (read_mthd s)
      else if start_counter s ! 1 = 4 then read_mtrk s
      else Inr s)"

definition scan_cond :: "MidiFile \<Rightarrow> bool" where
  "scan_cond s \<longleftrightarrow> itr s + 1 < length (bytes s) \<and> \<not> check_start_sequence s"

lemma match_start_frame:
  "match_start is s = Inr s' \<Longrightarrow> bytes s' = bytes s \<and> itr s' = itr s"
  by (induction "is" s rule: match_start.induct) (auto split: sum.splits if_splits)

lemma scan_byte_advances:
  "scan_byte s = Inr s' \<Longrightarrow> itr s + 1 < length (bytes s) \<Longrightarrow>
     bytes s' = bytes s \<and> itr s' = itr s + 1"
  by (auto simp: scan_byte_def split: sum.splits dest!: match_start_frame)

lemma dispatch_advances: "dispatch s = Inr s' \<Longrightarrow> bytes s' = bytes s \<and> itr s \<le> itr s'"
  by (auto simp: dispatch_def read_mthd_advances split: if_splits dest!: read_mtrk_advances)

function scan_loop :: "MidiFile \<Rightarrow> error + MidiFile" where
  "scan_loop s =
     (if scan_cond s then
        (case scan_byte s of
           Inl e \<Rightarrow> Inl e
         | Inr s1 \<Rightarrow> (case dispatch s1 of Inl e \<Rightarrow> Inl e | Inr s2 \<Rightarrow> scan_loop s2))
      else Inr s)"
  by pat_completeness auto
termination
proof (relation "measure (\<lambda>s. length (bytes s) - itr s)", goal_cases)
  case 1
  show ?case by simp
next
  case (2 s s1 s2)
  then have "bytes s1 = bytes s \<and> itr s1 = itr s + 1" "itr s + 1 < length (bytes s)"
    by (auto simp: scan_cond_def dest: scan_byte_advances)
  moreover from 2 have "bytes s2 = bytes s1 \<and> itr s1 \<le> itr s2"
    by (auto dest!: dispatch_advances)
  ultimately show ?case by auto
qed

declare scan_loop.simps [simp del]

lemma scan_loop_advances:
  "scan_loop s = Inr s' \<Longrightarrow>
     bytes s' = bytes s \<and> itr s \<le> itr s' \<and> (scan_cond s \<longrightarrow> itr s < itr s')"
proof (induction s rule: scan_loop.induct)
  case (1 s)
  show ?case
  proof (cases "scan_cond s")
    case False
    with "1.prems" show ?thesis by (subst (asm) scan_loop.simps) simp
  next
    case True
    with "1.prems" obtain s1 s2 where sb: "scan_byte s = Inr s1" and d: "dispatch s1 = Inr s2"
      and r: "scan_loop s2 = Inr s'"
      by (subst (asm) scan_loop.simps) (auto split: sum.splits)
    from True sb have "bytes s1 = bytes s \<and> itr s1 = itr s + 1"
      by (auto simp: scan_cond_def dest: scan_byte_advances)
    moreover from d have "bytes s2 = bytes s1 \<and> itr s1 \<le> itr s2"
      by (auto dest!: dispatch_advances)
    moreover from "1.IH" [OF True sb d r] have "bytes s' = bytes s2 \<and> itr s2 \<le> itr s'"
      by simp
    ultimately show ?thesis by auto
  qed
qed

text \<open>The \<^verbatim>\<open>for\<close> loop that sets every counter to 0.\<close>

definition reset_counters :: "MidiFile \<Rightarrow> MidiFile" where
  "reset_counters s = s\<lparr>start_counter := replicate (length (start_counter s)) 0\<rparr>"

lemma no_start_after_reset: "\<not> check_start_sequence (reset_counters s)"
proof -
  have "length seq \<noteq> count" if "(seq, count) \<in> set (zip start_sequence (replicate n 0))"
    for seq :: "int list" and count n
  proof -
    from that have "seq \<in> set start_sequence" by (rule set_zip_leftD)
    moreover from that have "count \<in> set (replicate n 0)" by (rule set_zip_rightD)
    ultimately show ?thesis by (auto simp: start_sequence_def)
  qed
  then show ?thesis
    by (fastforce simp: check_start_sequence_def reset_counters_def list_ex_iff)
qed

text \<open>\<^verbatim>\<open>read_events\<close>: the outer \<^verbatim>\<open>while\<close> loop.\<close>

function read_events :: "MidiFile \<Rightarrow> error + MidiFile" where
  "read_events s =
     (if itr s + 1 < length (bytes s) then
        (case scan_loop (reset_counters s) of
           Inl e \<Rightarrow> Inl e
         | Inr s' \<Rightarrow> read_events s')
      else Inr s)"
  by pat_completeness auto
termination
proof (relation "measure (\<lambda>s. length (bytes s) - itr s)", goal_cases)
  case 1
  show ?case by simp
next
  case (2 s s')
  have "scan_cond (reset_counters s)"
    using 2(1) no_start_after_reset [of s] by (simp add: scan_cond_def reset_counters_def)
  with scan_loop_advances [OF 2(2)] have "bytes s' = bytes s \<and> itr s < itr s'"
    by (simp add: reset_counters_def)
  with 2(1) show ?case by auto
qed

declare read_events.simps [simp del]

text \<open>
  \<^verbatim>\<open>__init__\<close>: \<open>MidiFile_new\<close> is the object before \<^verbatim>\<open>self.read_events()\<close> runs, on the
  content of the file; the optional argument \<^verbatim>\<open>default_tempo\<close> is \<open>None\<close> when the
  caller leaves it out.
\<close>

definition MidiFile_new :: "byte list \<Rightarrow> int option \<Rightarrow> MidiFile" where
  "MidiFile_new content default_tempo =
     \<lparr>bytes = content, header_length = - 1, format = - 1, tracks = - 1, division = - 1,
      division_type = - 1,
      tempo = (case default_tempo of None \<Rightarrow> 120 | Some t \<Rightarrow> t),
      itr = 0, running_status = - 1, running_status_set = False, delta_time = 0,
      midi_notes = [], start_counter = replicate (length start_sequence) 0\<rparr>"

definition MidiFile_init :: "byte list \<Rightarrow> int option \<Rightarrow> error + MidiFile" where
  "MidiFile_init content default_tempo = read_events (MidiFile_new content default_tempo)"

section \<open>Note consolidation and export\<close>

text \<open>
  \<^verbatim>\<open>process_notes\<close> only compares times, with \<^verbatim>\<open>==\<close> and \<^verbatim>\<open><\<close>, so the consolidation
  is defined for any linearly ordered type of times. \<^verbatim>\<open>self.notes.sort()\<close> sorts the
  two-element lists \<^verbatim>\<open>[time, symbols]\<close> in Python's list order, which is the
  lexicographic order of pairs: by time, then by the symbol string (strings compare
  character by character, by code point).
\<close>

text \<open>\<^verbatim>\<open>xs.pop(i)\<close> for an index in range.\<close>

definition pop_at :: "nat \<Rightarrow> 'a list \<Rightarrow> 'a list" where
  "pop_at i xs = take i xs @ drop (Suc i) xs"

lemma length_pop_at [simp]: "i < length xs \<Longrightarrow> length (pop_at i xs) = length xs - 1"
  by (auto simp: pop_at_def)

text \<open>
  The merging \<^verbatim>\<open>while\<close> loop, with the index \<open>i\<close> and the list as arguments. The
  index starts at 1 and never decreases, so \<open>i - 1\<close> is the index before.
\<close>

function merge_loop :: "nat \<Rightarrow> ('t \<times> string) list \<Rightarrow> ('t \<times> string) list" where
  "merge_loop i ns =
     (if i < length ns then
        (if fst (ns ! (i - 1)) = fst (ns ! i)
         then merge_loop i
                (pop_at (i - 1) (ns[i := (fst (ns ! i), snd (ns ! i) @ snd (ns ! (i - 1)))]))
         else merge_loop (i + 1) ns)
      else ns)"
  by pat_completeness auto
termination
  by (relation "measure (\<lambda>(i, ns). length ns - i)") auto

declare merge_loop.simps [simp del]

text \<open>\<^verbatim>\<open>s.index(c)\<close> for a character that occurs in \<open>s\<close>.\<close>

fun first_index :: "'a list \<Rightarrow> 'a \<Rightarrow> nat" where
  "first_index [] c = 0"
| "first_index (x # xs) c = (if x = c then 0 else Suc (first_index xs c))"

text \<open>
  \<^verbatim>\<open>"".join(sorted(set(s), key=s.index))\<close>: the characters of \<open>s\<close>, each once, sorted by
  the index of the first occurrence. The keys of different characters differ, so the
  result does not depend on the order in which the set is enumerated.
\<close>

definition dedup_symbols :: "string \<Rightarrow> string" where
  "dedup_symbols s = sort_key (first_index s) (sorted_list_of_set (set s))"

text \<open>The first part of \<^verbatim>\<open>process_notes\<close>: what it leaves in \<^verbatim>\<open>self.notes\<close>.\<close>

definition consolidate :: "('t::linorder \<times> string) list \<Rightarrow> ('t \<times> string) list" where
  "consolidate ns = map (\<lambda>note. (fst note, dedup_symbols (snd note))) (merge_loop 1 (sort ns))"

text \<open>
  \<^verbatim>\<open>generate_piano_sheet\<close>: \<^verbatim>\<open>offset = self.notes[0][0]\<close> raises on an empty list, before
  the file is opened; the value is not used afterwards. \<open>sheet_text\<close> is the loop
  over the notes, giving the text written to \<^verbatim>\<open>sheet.txt\<close>.
\<close>

definition rjust :: "nat \<Rightarrow> string \<Rightarrow> string" where
  "rjust w s = replicate (w - length s) (CHR '' '') @ s"

fun sheet_text :: "nat \<Rightarrow> ('t \<times> string) list \<Rightarrow> string" where
  "sheet_text note_count [] = []"
| "sheet_text note_count (note # rest) =
     (let note_repr = (if length (snd note) > 1 then ''['' @ snd note @ '']'' else snd note)
      in rjust 7 note_repr @ '' '' @
         (if (note_count + 1) mod 8 = 0 then [CHR 0x0A] else []) @
         sheet_text (note_count + 1) rest)"

definition generate_piano_sheet :: "('t \<times> string) list \<Rightarrow> error + string" where
  "generate_piano_sheet ns = (case ns of [] \<Rightarrow> Inl IndexError | _ \<Rightarrow> Inr (sheet_text 0 ns))"

text \<open>
  \<^verbatim>\<open>process_notes\<close>: the object with its consolidated notes, the song written to
  \<^verbatim>\<open>song.json\<close>, and the outcome of \<^verbatim>\<open>generate_piano_sheet\<close>, which is called last:
  the text of \<^verbatim>\<open>sheet.txt\<close> or the exception that ends the call.
\<close>

record song =
  song_tempo :: int
  song_notes :: "(rat \<times> string) list"

definition process_notes :: "MidiFile \<Rightarrow> MidiFile \<times> song \<times> (error + string)" where
  "process_notes s =
     (let s1 = s\<lparr>midi_notes := consolidate (midi_notes s)\<rparr>;
          song_data = \<lparr>song_tempo = tempo s1, song_notes = midi_notes s1\<rparr>
      in (s1, song_data, generate_piano_sheet (midi_notes s1)))"

section \<open>Concrete files\<close>

text \<open>
  Standard MIDI files used as inputs below: a header chunk (\<open>MThd\<close>, length 6, format,
  track count, division) and track chunks (\<open>MTrk\<close>, length, events).
  \<^item> \<open>two_tracks\<close>: format 1, 96 ticks per quarter note; track 1 is note-on 60 at
    delta 0, note-off at delta 96, end of track; track 2 is note-on 64 at delta 0, end
    of track.
  \<^item> \<open>slow_tempo_file\<close>: one track with Set Tempo 1000000 (bytes \<open>0F 42 40\<close>), end of
    track.
  \<^item> \<open>text_event_file\<close>: one track with the track name "AB" (\<open>FF 03 02 41 42\<close>, the type
    byte at offset 24), note-on 60, end of track.
  \<^item> \<open>smpte_file\<close>: division \<open>0xE728\<close>, top bit set (SMPTE, 25 frames, 40 ticks).
  \<^item> \<open>silent_file\<close>: one track holding only the end of track.
\<close>

definition two_tracks :: "byte list" where
  "two_tracks =
     [0x4D, 0x54, 0x68, 0x64, 0x00, 0x00, 0x00, 0x06, 0x00, 0x01, 0x00, 0x02,
      0x00, 0x60, 0x4D, 0x54, 0x72, 0x6B, 0x00, 0x00, 0x00, 0x0C, 0x00, 0x90,
      0x3C, 0x64, 0x60, 0x80, 0x3C, 0x00, 0x00, 0xFF, 0x2F, 0x00, 0x4D, 0x54,
      0x72, 0x6B, 0x00, 0x00, 0x00, 0x08, 0x00, 0x90, 0x40, 0x64, 0x00, 0xFF,
      0x2F, 0x00]"

definition slow_tempo_file :: "byte list" where
  "slow_tempo_file =
     [0x4D, 0x54, 0x68, 0x64, 0x00, 0x00, 0x00, 0x06, 0x00, 0x00, 0x00, 0x01,
      0x01, 0xE0, 0x4D, 0x54, 0x72, 0x6B, 0x00, 0x00, 0x00, 0x0B, 0x00, 0xFF,
      0x51, 0x03, 0x0F, 0x42, 0x40, 0x00, 0xFF, 0x2F, 0x00]"

definition text_event_file :: "byte list" where
  "text_event_file =
     [0x4D, 0x54, 0x68, 0x64, 0x00, 0x00, 0x00, 0x06, 0x00, 0x00, 0x00, 0x01,
      0x01, 0xE0, 0x4D, 0x54, 0x72, 0x6B, 0x00, 0x00, 0x00, 0x0E, 0x00, 0xFF,
      0x03, 0x02, 0x41, 0x42, 0x00, 0x90, 0x3C, 0x64, 0x00, 0xFF, 0x2F, 0x00]"

definition smpte_file :: "byte list" where
  "smpte_file =
     [0x4D, 0x54, 0x68, 0x64, 0x00, 0x00, 0x00, 0x06, 0x00, 0x00, 0x00, 0x01,
      0xE7, 0x28, 0x4D, 0x54, 0x72, 0x6B, 0x00, 0x00, 0x00, 0x04, 0x00, 0xFF,
      0x2F, 0x00]"

definition silent_file :: "byte list" where
  "silent_file =
     [0x4D, 0x54, 0x68, 0x64, 0x00, 0x00, 0x00, 0x06, 0x00, 0x00, 0x00, 0x01,
      0x01, 0xE0, 0x4D, 0x54, 0x72, 0x6B, 0x00, 0x00, 0x00, 0x04, 0x00, 0xFF,
      0x2F, 0x00]"


section \<open>Program points of a decode\<close>

text \<open>
  The claims about what holds during a decode speak about the states at certain
  points of the run. These are lists computed with the functions of the model itself:
  \<open>dispatch_points\<close> follows the two nested loops of \<^verbatim>\<open>read_events\<close> from a loop head
  of the inner loop and collects the states in which \<open>dispatch\<close> is called;
  \<open>track_starts\<close> keeps those in which \<open>dispatch\<close> calls \<^verbatim>\<open>read_mtrk\<close>;
  \<open>track_passes\<close> follows the loop of \<^verbatim>\<open>read_midi_track_event\<close> and collects the states
  at the start of each pass. \<open>decoder_state\<close> is the per-track state of the
  specification: the accumulator and the running status.
\<close>

definition decoder_state :: "MidiFile \<Rightarrow> int \<times> int \<times> bool" where
  "decoder_state s = (delta_time s, running_status s, running_status_set s)"

lemma reset_counters_frame [simp]:
  "bytes (reset_counters s) = bytes s" "itr (reset_counters s) = itr s"
  by (simp_all add: reset_counters_def)

function dispatch_points :: "MidiFile \<Rightarrow> MidiFile list" where
  "dispatch_points s =
     (if scan_cond s then
        (case scan_byte s of
           Inl e \<Rightarrow> []
         | Inr s1 \<Rightarrow> s1 # (case dispatch s1 of Inl e \<Rightarrow> [] | Inr s2 \<Rightarrow> dispatch_points s2))
      else if itr s + 1 < length (bytes s) then dispatch_points (reset_counters s)
      else [])"
  by pat_completeness auto
termination
proof (relation "measure (\<lambda>s. 2 * (length (bytes s) - itr s) + (if check_start_sequence s then 1 else 0))",
    goal_cases)
  case 1
  show ?case by simp
next
  case (2 s s1 s2)
  then have "bytes s1 = bytes s \<and> itr s1 = itr s + 1" "itr s + 1 < length (bytes s)"
    by (auto simp: scan_cond_def dest: scan_byte_advances)
  moreover from 2 have "bytes s2 = bytes s1 \<and> itr s1 \<le> itr s2"
    by (auto dest!: dispatch_advances)
  ultimately show ?case by auto
next
  case (3 s)
  then have "check_start_sequence s" by (simp add: scan_cond_def)
  with no_start_after_reset [of s] show ?case by simp
qed

declare dispatch_points.simps [simp del]

definition decode_points :: "MidiFile \<Rightarrow> MidiFile list" where
  "decode_points s =
     (if itr s + 1 < length (bytes s) then dispatch_points (reset_counters s) else [])"

definition is_track_start :: "MidiFile \<Rightarrow> bool" where
  "is_track_start t \<longleftrightarrow> start_counter t ! 0 \<noteq> 4 \<and> start_counter t ! 1 = 4"

definition track_starts :: "MidiFile \<Rightarrow> MidiFile list" where
  "track_starts s = filter is_track_start (decode_points s)"

function track_passes :: "nat \<Rightarrow> int \<Rightarrow> bool \<Rightarrow> MidiFile \<Rightarrow> MidiFile list" where
  "track_passes start len continue_flag s =
     (if len > int (itr s) - int start \<and> continue_flag then
        s # (case track_event s continue_flag of
               Inl e \<Rightarrow> []
             | Inr (cf, s') \<Rightarrow> track_passes start len cf s')
      else [])"
  by pat_completeness auto
termination
proof (relation "measure (\<lambda>(start, len, cf, s). length (bytes s) - itr s)", goal_cases)
  case 1
  show ?case by simp
next
  case (2 start len continue_flag s x2 cf s')
  then have "bytes s' = bytes s \<and> itr s < itr s' \<and> itr s < length (bytes s)"
    by (auto dest: track_event_advances)
  then show ?case by auto
qed

declare track_passes.simps [simp del]

text \<open>
  The passes of the track loop that \<^verbatim>\<open>read_mtrk\<close> runs when called in \<open>t\<close>: the loop of
  \<^verbatim>\<open>read_midi_track_event\<close>, started in the state after the four length bytes. The
  first element, if any, is the state the first event of the chunk is decoded with.
\<close>

definition track_loop_passes :: "MidiFile \<Rightarrow> MidiFile list" where
  "track_loop_passes t = (case get_int t 4 of (len, t1) \<Rightarrow> track_passes (itr t1) len True t1)"

text \<open>
  A state with the accumulator and the running status as \<^verbatim>\<open>__init__\<close> sets them, for
  comparison only: no function of the source produces it.
\<close>

definition fresh_decoder_state :: "MidiFile \<Rightarrow> MidiFile" where
  "fresh_decoder_state s = s\<lparr>delta_time := 0, running_status := - 1, running_status_set := False\<rparr>"

text \<open>
  A pass handles a Set Tempo meta event when, after its delta time, the buffer holds
  the marker \<open>0xFF\<close> and the type \<open>0x51\<close>.
\<close>

definition at_set_tempo :: "MidiFile \<Rightarrow> bool" where
  "at_set_tempo s =
     (case read_length s of
        Inl e \<Rightarrow> False
      | Inr (delta_t, s1) \<Rightarrow> byte_at s1 (itr s1) = Inr 0xFF \<and> byte_at s1 (itr s1 + 1) = Inr 0x51)"

definition track_set_tempos :: "MidiFile \<Rightarrow> MidiFile list" where
  "track_set_tempos t =
     (case get_int t 4 of (len, t1) \<Rightarrow> filter at_set_tempo (track_passes (itr t1) len True t1))"

definition set_tempo_events :: "MidiFile \<Rightarrow> MidiFile list" where
  "set_tempo_events s = concat (map track_set_tempos (track_starts s))"


text \<open>Where the scanner goes on from a loop head of the inner loop.\<close>

definition continue_from :: "MidiFile \<Rightarrow> error + MidiFile" where
  "continue_from s = (case scan_loop s of Inl e \<Rightarrow> Inl e | Inr s' \<Rightarrow> read_events s')"

text \<open>
  Along a list of track starts: the decoder state at each start but the first is the
  one that \<^verbatim>\<open>read_mtrk\<close> returned for the start before.
\<close>

fun carried_over :: "MidiFile list \<Rightarrow> bool" where
  "carried_over (a # b # rest) =
     ((case read_mtrk a of Inl e \<Rightarrow> False | Inr e \<Rightarrow> decoder_state b = decoder_state e) \<and>
      carried_over (b # rest))"
| "carried_over [a] = True"
| "carried_over [] = True"

text \<open>The big-endian value of a byte string, as a specification.\<close>

fun be_value :: "byte list \<Rightarrow> int" where
  "be_value [] = 0"
| "be_value (b # bs) = uint b * 256 ^ length bs + be_value bs"

section \<open>Fixed-width reads\<close>

lemma foldl_be_value:
  "foldl (\<lambda>val n. push_bit 8 val + uint n) v bs = v * 256 ^ length bs + be_value bs"
  by (induction bs arbitrary: v) (simp_all add: push_bit_eq_mult algebra_simps)

lemma get_int_value: "fst (get_int s n) = be_value (take n (drop (itr s) (bytes s)))"
  by (simp add: get_int_def py_slice_def foldl_be_value)

text \<open>
  Claim C4, as the code has it. \<open>get_int\<close> never fails: it returns the big-endian value
  of the bytes from the position up to \<open>n\<close> bytes further or to the end of the buffer,
  whichever comes first, and always advances the position by exactly \<open>n\<close>. When at
  least \<open>n\<close> bytes remain these are exactly \<open>n\<close> bytes and the position stays within
  the buffer; when fewer remain, the value is that of the remaining bytes only and the
  new position lies beyond the end of the buffer.
\<close>

theorem get_int_reads_available:
  "get_int s n = (be_value (take n (drop (itr s) (bytes s))), s\<lparr>itr := itr s + n\<rparr>) \<and>
   (itr s + n \<le> length (bytes s) \<longrightarrow>
      length (take n (drop (itr s) (bytes s))) = n \<and>
      itr (snd (get_int s n)) \<le> length (bytes (snd (get_int s n)))) \<and>
   (length (bytes s) < itr s + n \<longrightarrow>
      length (take n (drop (itr s) (bytes s))) = length (bytes s) - itr s \<and>
      length (bytes (snd (get_int s n))) < itr (snd (get_int s n)))"
  by (auto simp: get_int_def py_slice_def foldl_be_value)

theorem get_int_reads_available_witness:
  "get_int (MidiFile_new [0x01, 0x02, 0x03] None) 2
     = (258, (MidiFile_new [0x01, 0x02, 0x03] None)\<lparr>itr := 2\<rparr>) \<and>
   get_int ((MidiFile_new [0x01, 0x02, 0x03] None)\<lparr>itr := 2\<rparr>) 2
     = (3, (MidiFile_new [0x01, 0x02, 0x03] None)\<lparr>itr := 4\<rparr>)"
  using get_int_reads_available [of "MidiFile_new [0x01, 0x02, 0x03] None" 2]
    get_int_reads_available [of "(MidiFile_new [0x01, 0x02, 0x03] None)\<lparr>itr := 2\<rparr>" 2]
  by (simp add: MidiFile_new_def)

text \<open>
  The claim as stated fails: with one byte left, a two-byte read does not fail; it
  returns the value of that byte and leaves the position at 2, beyond the length 1.
\<close>

theorem get_int_no_out_of_bounds:
  "fst (get_int (MidiFile_new [0x01] None) 2) = 1 \<and>
   itr (snd (get_int (MidiFile_new [0x01] None) 2)) = 2 \<and>
   length (bytes (snd (get_int (MidiFile_new [0x01] None) 2))) = 1"
  by (simp add: get_int_def py_slice_def MidiFile_new_def)

section \<open>Pitch mapping\<close>

lemma length_scale: "length VIRTUAL_PIANO_SCALE = 62"
  by (simp add: VIRTUAL_PIANO_SCALE_def)

lemma map_key_down_range:
  "map_key_down m < 62 \<and> (0 \<le> m \<longrightarrow> 0 \<le> map_key_down m) \<and> 12 dvd (map_key_down m - m)"
proof (induction m rule: map_key_down.induct)
  case (1 m)
  show ?case
  proof (cases "m \<ge> int (length VIRTUAL_PIANO_SCALE)")
    case True
    then have eq: "map_key_down m = map_key_down (m - 12)" by (subst map_key_down.simps) simp
    from True have m: "0 \<le> m - 12" by (simp add: length_scale)
    from "1.IH" [OF True] have lt: "map_key_down (m - 12) < 62"
      and ge: "0 \<le> m - 12 \<longrightarrow> 0 \<le> map_key_down (m - 12)"
      and dv: "12 dvd (map_key_down (m - 12) - (m - 12))"
      by blast+
    have "map_key_down (m - 12) - m = (map_key_down (m - 12) - (m - 12)) - 12" by simp
    with dv have "12 dvd (map_key_down (m - 12) - m)" by (simp only: dvd_diff dvd_refl)
    with lt ge m show ?thesis unfolding eq by blast
  next
    case False
    then have "map_key_down m = m" by (subst map_key_down.simps) simp
    with False show ?thesis by (simp add: length_scale)
  qed
qed

lemma map_key_up_range:
  "0 \<le> map_key_up m \<and> (0 \<le> m \<longrightarrow> map_key_up m = m) \<and> (m < 0 \<longrightarrow> map_key_up m < 12) \<and>
   12 dvd (map_key_up m - m)"
proof (induction m rule: map_key_up.induct)
  case (1 m)
  show ?case
  proof (cases "m < 0")
    case True
    then have eq: "map_key_up m = map_key_up (m + 12)" by (subst map_key_up.simps) simp
    from "1.IH" [OF True] have ge: "0 \<le> map_key_up (m + 12)"
      and id: "0 \<le> m + 12 \<longrightarrow> map_key_up (m + 12) = m + 12"
      and lt: "m + 12 < 0 \<longrightarrow> map_key_up (m + 12) < 12"
      and dv: "12 dvd (map_key_up (m + 12) - (m + 12))"
      by blast+
    have "map_key_up (m + 12) - m = (map_key_up (m + 12) - (m + 12)) + 12" by simp
    with dv have dv': "12 dvd (map_key_up (m + 12) - m)" by (simp only: dvd_add dvd_refl)
    have "map_key_up (m + 12) < 12"
    proof (cases "m + 12 < 0")
      case True
      with lt show ?thesis by blast
    next
      case False
      with id have "map_key_up (m + 12) = m + 12" by simp
      with \<open>m < 0\<close> show ?thesis by simp
    qed
    with ge dv' True show ?thesis unfolding eq by simp
  next
    case False
    then have "map_key_up m = m" by (subst map_key_up.simps) simp
    with False show ?thesis by simp
  qed
qed

text \<open>
  Claim C8. \<open>map_key_to_piano\<close> is a total function (both loops terminate), and for
  every key, so for every 7-bit key in particular, its result is an index of the
  alphabet: at least 0 and less than the alphabet's length \<open>L = 62\<close>, so that indexing
  the alphabet with it succeeds; it differs from \<open>key - 36\<close> by a multiple of 12.
\<close>

theorem map_key_to_piano_in_range:
  "0 \<le> map_key_to_piano key \<and> map_key_to_piano key < int (length VIRTUAL_PIANO_SCALE) \<and>
   12 dvd (map_key_to_piano key - (key - 36)) \<and>
   scale_at (map_key_to_piano key) = Inr (VIRTUAL_PIANO_SCALE ! nat (map_key_to_piano key))"
proof -
  define d where "d = map_key_down (key - 36)"
  define u where "u = map_key_up d"
  have d: "d < 62" "12 dvd (d - (key - 36))"
    using map_key_down_range [of "key - 36"] by (simp_all add: d_def)
  have u: "0 \<le> u" "0 \<le> d \<longrightarrow> u = d" "d < 0 \<longrightarrow> u < 12" "12 dvd (u - d)"
    using map_key_up_range [of d] by (simp_all add: u_def)
  from d(1) u(2,3) have lt: "u < 62" by (cases "0 \<le> d") auto
  from d(2) u(4) have "12 dvd (u - d) + (d - (key - 36))" by (rule dvd_add [rotated])
  moreover have "(u - d) + (d - (key - 36)) = u - (key - 36)" by arith
  ultimately have dv: "12 dvd (u - (key - 36))" by (simp only:)
  have "map_key_to_piano key = u" by (simp add: map_key_to_piano_def u_def d_def)
  with u(1) lt dv show ?thesis
    by (simp add: scale_at_def length_scale)
qed

section \<open>Consolidation\<close>

text \<open>The merging loop as a structural recursion over the list.\<close>

fun merge_adj :: "('t \<times> string) list \<Rightarrow> ('t \<times> string) list" where
  "merge_adj [] = []"
| "merge_adj [x] = [x]"
| "merge_adj (x # y # zs) =
     (if fst x = fst y then merge_adj ((fst y, snd y @ snd x) # zs) else x # merge_adj (y # zs))"

lemma merge_loop_merge_adj:
  "length pre = i - 1 \<Longrightarrow> 0 < i \<Longrightarrow> merge_loop i (pre @ rest) = pre @ merge_adj rest"
proof (induction i "pre @ rest" arbitrary: pre rest rule: merge_loop.induct)
  case (1 i)
  show ?case
  proof (cases rest)
    case Nil
    with 1(3,4) show ?thesis by (subst merge_loop.simps) auto
  next
    case (Cons x rest')
    note rest = Cons
    show ?thesis
    proof (cases rest')
      case Nil
      with rest 1(3,4) show ?thesis by (subst merge_loop.simps) auto
    next
      case (Cons y zs)
      from 1(3,4) have len: "i < length (pre @ rest)" and i1: "(pre @ rest) ! (i - 1) = x"
        and i2: "(pre @ rest) ! i = y"
        using rest Cons by (auto simp: nth_append)
      show ?thesis
      proof (cases "fst x = fst y")
        case True
        have upd: "pop_at (i - 1) ((pre @ rest)[i := (fst y, snd y @ snd x)])
            = pre @ (fst y, snd y @ snd x) # zs"
          using 1(3,4) rest Cons by (auto simp: pop_at_def list_update_append)
        have "merge_loop i (pre @ rest) = merge_loop i (pre @ (fst y, snd y @ snd x) # zs)"
          using len i1 i2 True upd by (subst merge_loop.simps) simp
        also have "\<dots> = pre @ merge_adj ((fst y, snd y @ snd x) # zs)"
          using "1.hyps"(1) [of pre "(fst y, snd y @ snd x) # zs"] len i1 i2 True upd 1(3,4)
          by simp
        finally show ?thesis using rest Cons True by simp
      next
        case False
        have "merge_loop i (pre @ rest) = merge_loop (i + 1) ((pre @ [x]) @ rest')"
          using len i1 i2 False rest by (subst merge_loop.simps) simp
        also have "\<dots> = (pre @ [x]) @ merge_adj rest'"
          using "1.hyps"(2) [of "pre @ [x]" rest'] len i1 i2 False rest 1(3,4) by simp
        finally show ?thesis using rest Cons False by simp
      qed
    qed
  qed
qed

lemma merge_loop_1: "merge_loop (Suc 0) ns = merge_adj ns"
  using merge_loop_merge_adj [of "[]" 1 ns] by simp


definition chord_of :: "('t \<times> string) list \<Rightarrow> 't \<Rightarrow> string" where
  "chord_of ns t = concat (rev (map snd (filter (\<lambda>p. fst p = t) ns)))"

lemma merge_adj_chords:
  "sorted (map fst ns) \<Longrightarrow>
     merge_adj ns = map (\<lambda>t. (t, chord_of ns t)) (remdups_adj (map fst ns))"
proof (induction ns rule: merge_adj.induct)
  case 1
  show ?case by simp
next
  case (2 x)
  show ?case by (cases x) (simp add: chord_of_def)
next
  case (3 x y zs)
  show ?case
  proof (cases "fst x = fst y")
    case True
    have same: "chord_of ((fst y, snd y @ snd x) # zs) t = chord_of (x # y # zs) t" for t
      using True by (simp add: chord_of_def)
    from "3.prems" have "sorted (map fst ((fst y, snd y @ snd x) # zs))" by simp
    from "3.IH"(1) [OF True this] True show ?thesis by (simp add: same)
  next
    case False
    from "3.prems" have sorted_tl: "sorted (map fst (y # zs))" by simp
    from "3.prems" False have lt: "\<forall>p \<in> set (y # zs). fst x < fst p" by auto
    then have hd_chord: "chord_of (x # y # zs) (fst x) = snd x"
      by (auto simp: chord_of_def filter_empty_conv)
    have "chord_of (x # y # zs) t = chord_of (y # zs) t" if "t \<in> fst ` set (y # zs)" for t
      using that lt by (auto simp: chord_of_def)
    then have "map (\<lambda>t. (t, chord_of (x # y # zs) t)) (remdups_adj (map fst (y # zs)))
        = map (\<lambda>t. (t, chord_of (y # zs) t)) (remdups_adj (map fst (y # zs)))"
      by (intro map_cong refl) simp
    with "3.IH"(2) [OF False sorted_tl] False hd_chord show ?thesis by simp
  qed
qed

lemma sorted_map_fst: "sorted (ns :: ('t::linorder \<times> 'b::linorder) list) \<Longrightarrow> sorted (map fst ns)"
  unfolding sorted_map by (erule sorted_wrt_mono_rel [rotated]) (auto simp: less_eq_prod_def)

lemma distinct_remdups_adj_sorted: "sorted xs \<Longrightarrow> distinct (remdups_adj xs)"
  by (induction xs rule: remdups_adj.induct) auto

lemma sorted_lex_if_strict_fst:
  "sorted (map fst ns) \<Longrightarrow> distinct (map fst ns) \<Longrightarrow> sorted (ns :: ('t::linorder \<times> 'b::linorder) list)"
proof -
  assume "sorted (map fst ns)" "distinct (map fst ns)"
  then have "sorted_wrt (<) (map fst ns)" by (simp add: strict_sorted_iff)
  then have "sorted_wrt (\<lambda>a b. fst a < fst b) ns" by (simp add: sorted_wrt_map)
  then show ?thesis by (rule sorted_wrt_mono_rel [rotated]) (auto simp: less_eq_prod_def)
qed

lemma merge_adj_distinct: "distinct (map fst ns) \<Longrightarrow> merge_adj ns = ns"
  by (induction ns rule: merge_adj.induct) auto

lemma first_index_inj:
  "x \<in> set s \<Longrightarrow> y \<in> set s \<Longrightarrow> first_index s x = first_index s y \<Longrightarrow> x = y"
  by (induction s) (auto split: if_splits)

lemma remdups_snoc: "remdups (ys @ [x]) = filter (\<lambda>c. c \<noteq> x) (remdups ys) @ [x]"
  by (induction ys) auto

lemma first_occurrences_Cons:
  "rev (remdups (rev (x # xs))) = x # filter (\<lambda>c. c \<noteq> x) (rev (remdups (rev xs)))"
  by (simp add: remdups_snoc rev_filter)

lemma sorted_first_occurrences: "sorted (map (first_index s) (rev (remdups (rev s))))"
proof (induction s)
  case Nil
  show ?case by simp
next
  case (Cons x xs)
  let ?u = "filter (\<lambda>c. c \<noteq> x) (rev (remdups (rev xs)))"
  from Cons have "sorted (map (first_index xs) ?u)" by (rule sorted_filter)
  then have "sorted (map (\<lambda>c. Suc (first_index xs c)) ?u)" by (simp add: sorted_map)
  moreover have "map (first_index (x # xs)) ?u = map (\<lambda>c. Suc (first_index xs c)) ?u"
    by (rule map_cong) auto
  ultimately have "sorted (map (first_index (x # xs)) ?u)" by (simp only:)
  moreover have "first_index (x # xs) x = 0" by simp
  ultimately have "sorted (map (first_index (x # xs)) (x # ?u))"
    by (simp del: first_index.simps)
  then show ?case unfolding first_occurrences_Cons .
qed

lemma dedup_symbols_first_occurrences: "dedup_symbols s = rev (remdups (rev s))"
proof (rule map_sorted_distinct_set_unique [where f = "first_index s"])
  show "inj_on (first_index s) (set (dedup_symbols s) \<union> set (rev (remdups (rev s))))"
    by (auto simp: dedup_symbols_def inj_on_def dest: first_index_inj)
  have d: "distinct (dedup_symbols s)" by (simp add: dedup_symbols_def)
  have inj: "inj_on (first_index s) (set s)" by (auto simp: inj_on_def dest: first_index_inj)
  show "sorted (map (first_index s) (dedup_symbols s))" by (simp add: dedup_symbols_def)
  show "distinct (map (first_index s) (dedup_symbols s))"
    using d inj by (simp add: distinct_map dedup_symbols_def)
  show "sorted (map (first_index s) (rev (remdups (rev s))))" by (rule sorted_first_occurrences)
  show "distinct (map (first_index s) (rev (remdups (rev s))))"
    using inj by (simp add: distinct_map)
  show "set (dedup_symbols s) = set (rev (remdups (rev s)))" by (simp add: dedup_symbols_def)
qed

lemma distinct_dedup_symbols: "distinct (dedup_symbols s)"
  by (simp add: dedup_symbols_def)

lemma dedup_symbols_distinct: "distinct s \<Longrightarrow> dedup_symbols s = s"
  by (simp add: dedup_symbols_first_occurrences distinct_remdups_id)

lemma consolidate_chords:
  "consolidate ns =
     map (\<lambda>t. (t, dedup_symbols (chord_of (sort ns) t))) (remdups_adj (map fst (sort ns)))"
  by (simp add: consolidate_def merge_loop_1 merge_adj_chords sorted_map_fst comp_def)

text \<open>
  Claim C9. The consolidation (sort, merge the entries of equal time, deduplicate the
  symbols of each chord) is idempotent: applied to its own output, for any list of
  notes, it returns that output unchanged.
\<close>

theorem consolidate_idempotent: "consolidate (consolidate ns) = consolidate ns"
proof -
  let ?R = "consolidate ns"
  have fst_R: "map fst ?R = remdups_adj (map fst (sort ns))"
    by (simp add: consolidate_chords comp_def)
  then have s: "sorted (map fst ?R)" and d: "distinct (map fst ?R)"
    by (simp_all add: sorted_map_fst distinct_remdups_adj_sorted)
  then have "sort ?R = ?R" by (intro sorted_sort_id sorted_lex_if_strict_fst)
  moreover have "merge_adj ?R = ?R" using d by (rule merge_adj_distinct)
  moreover have "map (\<lambda>note. (fst note, dedup_symbols (snd note))) ?R = ?R"
    by (simp add: consolidate_def comp_def dedup_symbols_distinct distinct_dedup_symbols)
  ultimately show ?thesis
    by (subst (1) consolidate_def) (simp add: merge_loop_1)
qed


lemma concat_rev_singletons:
  "\<forall>s \<in> set L. \<exists>c. s = [c] \<Longrightarrow> concat (rev L) = rev (concat L)"
  by (induction L) auto

lemma sorted_concat_singletons:
  "sorted (L :: 'a::linorder list list) \<Longrightarrow> \<forall>s \<in> set L. \<exists>c. s = [c] \<Longrightarrow> sorted (concat L)"
proof (induction L)
  case Nil
  show ?case by simp
next
  case (Cons s L)
  then obtain c where s: "s = [c]" by auto
  have "c \<le> d" if "d \<in> set (concat L)" for d
  proof -
    from that Cons.prems(2) have "[d] \<in> set L" by auto
    with Cons.prems(1) s have "[c] \<le> [d]" by auto
    then show ?thesis by auto
  qed
  with Cons s show ?case by auto
qed

lemma sorted_snd_same_fst:
  "sorted (F :: ('t::linorder \<times> 'b::linorder) list) \<Longrightarrow> \<forall>p \<in> set F. fst p = t \<Longrightarrow> sorted (map snd F)"
  unfolding sorted_map by (erule sorted_wrt_mono_rel [rotated]) (auto simp: less_eq_prod_def)

lemma dedup_symbols_rev_sorted:
  "sorted X \<Longrightarrow> dedup_symbols (rev X) = rev (sorted_list_of_set (set X))"
proof -
  assume "sorted X"
  then have "sorted (remdups X)" by simp
  then have "sorted_list_of_set (set (remdups X)) = remdups X"
    by (intro sorted_list_of_set.idem_if_sorted_distinct) simp_all
  then show ?thesis by (simp add: dedup_symbols_first_occurrences)
qed

lemma chord_of_raw:
  fixes raw :: "('t::linorder \<times> char) list"
  defines "S \<equiv> sort (map (\<lambda>(t, c). (t, [c])) raw)"
  shows "dedup_symbols (chord_of S t) = rev (sorted_list_of_set {c. (t, c) \<in> set raw})"
proof -
  let ?F = "filter (\<lambda>p. fst p = t) S"
  let ?X = "concat (map snd ?F)"
  have single: "\<forall>s \<in> set (map snd ?F). \<exists>c. s = [c]" by (auto simp: S_def)
  have "sorted ?F" using sorted_filter [of "\<lambda>x. x" S] by (simp add: S_def)
  then have "sorted (map snd ?F)" by (rule sorted_snd_same_fst [where t = t]) simp
  then have X: "sorted ?X" using single by (rule sorted_concat_singletons)
  have "chord_of S t = rev ?X"
    unfolding chord_of_def using single by (rule concat_rev_singletons)
  moreover have "set ?X = {c. (t, c) \<in> set raw}" by (auto simp: S_def)
  ultimately show ?thesis using dedup_symbols_rev_sorted [OF X] by simp
qed

text \<open>
  Claim C3, as the code has it. A raw note is a time and one symbol. The notes are
  sorted by time and then by symbol, not by emission order; the consolidated list has
  one chord for each time that occurs, the times ascending, and the chord of a time
  lists the distinct symbols emitted at that time in descending character order,
  whatever the order of emission.
\<close>

theorem consolidate_raw_notes:
  fixes raw :: "('t::linorder \<times> char) list"
  shows "consolidate (map (\<lambda>(t, c). (t, [c])) raw) =
     map (\<lambda>t. (t, rev (sorted_list_of_set {c. (t, c) \<in> set raw})))
       (sorted_list_of_set (fst ` set raw))"
proof -
  let ?S = "sort (map (\<lambda>(t, c). (t, [c])) raw)"
  let ?T = "remdups_adj (map fst ?S)"
  have "sorted ?T" "distinct ?T"
    by (simp_all add: sorted_map_fst distinct_remdups_adj_sorted)
  then have "sorted_list_of_set (set ?T) = ?T"
    by (rule sorted_list_of_set.idem_if_sorted_distinct)
  moreover have "set ?T = fst ` set raw" by force
  ultimately have "?T = sorted_list_of_set (fst ` set raw)" by simp
  then show ?thesis by (simp add: consolidate_chords chord_of_raw)
qed

text \<open>
  The claim as stated fails: two notes at the same time, a before z in emission
  order, give the chord za, not az.
\<close>

theorem consolidate_not_emission_order:
  "consolidate [(0 :: rat, ''a''), (0, ''z'')] = [(0, ''za'')] \<and>
   consolidate [(0 :: rat, ''a''), (0, ''z'')] \<noteq> [(0, ''az'')]"
  by code_simp

section \<open>The tempo is written by Set Tempo events only\<close>

lemma read_length_loop_frame:
  "read_length_loop s len = Inr (v, s') \<Longrightarrow> s' = s\<lparr>itr := itr s'\<rparr>"
proof (induction s len rule: read_length_loop.induct)
  case (1 s len)
  from "1.prems" obtain b where b: "byte_at s (itr s) = Inr b"
    by (subst (asm) read_length_loop.simps) (auto split: sum.splits)
  show ?case
  proof (cases "drop_bit 7 (b AND 0x80) = 1")
    case True
    with "1.prems" b have "read_length_loop (s\<lparr>itr := itr s + 1\<rparr>) (push_bit 7 len + (b AND 0x7F)) = Inr (v, s')"
      by (subst (asm) read_length_loop.simps) simp
    from "1.IH" [OF b True this] have "s' = s\<lparr>itr := itr s + 1\<rparr>\<lparr>itr := itr s'\<rparr>" .
    then show ?thesis by simp
  next
    case False
    with "1.prems" b have "s' = s\<lparr>itr := itr s + 1\<rparr>"
      by (subst (asm) read_length_loop.simps) simp
    then show ?thesis by simp
  qed
qed

lemma read_length_frame: "read_length s = Inr (v, s') \<Longrightarrow> s' = s\<lparr>itr := itr s'\<rparr>"
  unfolding read_length_def by (rule read_length_loop_frame)

lemma read_length_tempo: "read_length s = Inr (v, s') \<Longrightarrow> tempo s' = tempo s"
  by (drule read_length_frame) (erule ssubst, simp)

lemma read_voice_event_tempo: "read_voice_event s d = Inr s' \<Longrightarrow> tempo s' = tempo s"
  by (auto simp: read_voice_event_def read_status_def Let_def split: sum.splits if_splits prod.splits)

lemma read_midi_meta_event_tempo:
  "read_midi_meta_event s d = Inr (cf, s') \<Longrightarrow> byte_at s (itr s) \<noteq> Inr 0x51 \<Longrightarrow> tempo s' = tempo s"
  by (auto simp: read_midi_meta_event_def get_int_def split: sum.splits if_splits prod.splits
      dest!: read_length_tempo)

lemma byte_at_frame [simp]:
  "byte_at (s\<lparr>delta_time := d\<rparr>) i = byte_at s i"
  "byte_at (s\<lparr>itr := k\<rparr>) i = byte_at s i"
  by (simp_all add: byte_at_def)

lemma track_event_tempo:
  assumes "track_event s cf = Inr (cf', s')" and "\<not> at_set_tempo s"
  shows "tempo s' = tempo s"
proof -
  from assms(1) obtain delta_t s1 where rl: "read_length s = Inr (delta_t, s1)"
    by (auto simp: track_event_def split: sum.splits)
  then have t1: "tempo s1 = tempo s" by (rule read_length_tempo)
  from assms(1) rl obtain b where b: "byte_at s1 (itr s1) = Inr b"
    by (auto simp: track_event_def Let_def split: sum.splits)
  show ?thesis
  proof (cases "b = 0xFF")
    case True
    with assms(1) rl b have m: "read_midi_meta_event
        (s1\<lparr>delta_time := delta_time s1 + delta_t, itr := itr s1 + 1\<rparr>) delta_t = Inr (cf', s')"
      by (simp add: track_event_def Let_def)
    from assms(2) rl b True have "byte_at s1 (itr s1 + 1) \<noteq> Inr 0x51"
      by (simp add: at_set_tempo_def)
    with read_midi_meta_event_tempo [OF m] t1 show ?thesis by simp
  next
    case False
    with assms(1) rl b t1 show ?thesis
      by (auto simp: track_event_def Let_def split: sum.splits if_splits
          dest!: read_voice_event_tempo)
  qed
qed

lemma track_loop_tempo:
  "track_loop start len cf s = Inr s' \<Longrightarrow>
   \<forall>h \<in> set (track_passes start len cf s). \<not> at_set_tempo h \<Longrightarrow> tempo s' = tempo s"
proof (induction start len cf s rule: track_loop.induct)
  case (1 start len cf s)
  show ?case
  proof (cases "len > int (itr s) - int start \<and> cf")
    case False
    with "1.prems"(1) show ?thesis by (subst (asm) track_loop.simps) simp
  next
    case True
    with "1.prems"(1) obtain cf' s1 where ev: "track_event s cf = Inr (cf', s1)"
      and r: "track_loop start len cf' s1 = Inr s'"
      by (subst (asm) track_loop.simps) (auto split: sum.splits)
    from True ev have passes: "track_passes start len cf s = s # track_passes start len cf' s1"
      by (subst track_passes.simps) simp
    with "1.prems"(2) have "\<not> at_set_tempo s"
      and rest: "\<forall>h \<in> set (track_passes start len cf' s1). \<not> at_set_tempo h"
      by simp_all
    from track_event_tempo [OF ev this(1)] "1.IH" [OF True ev refl r rest]
    show ?thesis by simp
  qed
qed

lemma read_mtrk_tempo:
  "read_mtrk t = Inr s' \<Longrightarrow> track_set_tempos t = [] \<Longrightarrow> tempo s' = tempo t"
  by (auto simp: read_mtrk_def read_midi_track_event_def track_set_tempos_def get_int_def
      filter_empty_conv split: sum.splits dest!: track_loop_tempo)

lemma read_mthd_tempo: "tempo (read_mthd s) = tempo s"
  by (simp add: read_mthd_def get_int_def)

lemma dispatch_tempo:
  "dispatch t = Inr s' \<Longrightarrow> (is_track_start t \<longrightarrow> track_set_tempos t = []) \<Longrightarrow> tempo s' = tempo t"
  by (auto simp: dispatch_def is_track_start_def read_mthd_tempo split: if_splits
      dest!: read_mtrk_tempo)

lemma match_start_tempo:
  "match_start is s = Inr s' \<Longrightarrow> tempo s' = tempo s \<and> decoder_state s' = decoder_state s"
  by (induction "is" s rule: match_start.induct)
    (auto simp: decoder_state_def split: sum.splits if_splits)

lemma scan_byte_tempo:
  "scan_byte s = Inr s' \<Longrightarrow> tempo s' = tempo s \<and> decoder_state s' = decoder_state s"
  by (auto simp: scan_byte_def decoder_state_def split: sum.splits if_splits dest!: match_start_tempo)

lemma continue_from_tempo:
  "continue_from s = Inr s' \<Longrightarrow>
   \<forall>t \<in> set (dispatch_points s). is_track_start t \<longrightarrow> track_set_tempos t = [] \<Longrightarrow>
   tempo s' = tempo s"
proof (induction s rule: dispatch_points.induct)
  case (1 s)
  consider (pass) "scan_cond s" | (again) "\<not> scan_cond s" "itr s + 1 < length (bytes s)"
    | (stop) "\<not> scan_cond s" "\<not> itr s + 1 < length (bytes s)"
    by blast
  then show ?case
  proof cases
    case pass
    with "1.prems"(1) obtain s1 s2 where sb: "scan_byte s = Inr s1" and d: "dispatch s1 = Inr s2"
      and c: "continue_from s2 = Inr s'"
      unfolding continue_from_def
      by (subst (asm) scan_loop.simps) (auto split: sum.splits)
    from pass sb d have pts: "dispatch_points s = s1 # dispatch_points s2"
      by (subst dispatch_points.simps) simp
    with "1.prems"(2) have here: "is_track_start s1 \<longrightarrow> track_set_tempos s1 = []"
      and rest: "\<forall>t \<in> set (dispatch_points s2). is_track_start t \<longrightarrow> track_set_tempos t = []"
      by simp_all
    from "1.IH"(1) [OF pass sb d c rest] dispatch_tempo [OF d here] scan_byte_tempo [OF sb]
    show ?thesis by simp
  next
    case again
    then have "scan_loop s = Inr s" by (subst scan_loop.simps) simp
    with "1.prems"(1) have "read_events s = Inr s'" by (simp add: continue_from_def)
    with again have c: "continue_from (reset_counters s) = Inr s'"
      unfolding continue_from_def by (subst (asm) read_events.simps) simp
    from again have "dispatch_points s = dispatch_points (reset_counters s)"
      by (subst dispatch_points.simps) simp
    with "1.prems"(2) "1.IH"(2) [OF again c] show ?thesis
      by (simp add: reset_counters_def)
  next
    case stop
    then have "scan_loop s = Inr s" by (subst scan_loop.simps) simp
    with "1.prems"(1) have "read_events s = Inr s'" by (simp add: continue_from_def)
    with stop show ?thesis by (subst (asm) read_events.simps) simp
  qed
qed

lemma read_events_tempo:
  assumes "read_events s = Inr s'" and "set_tempo_events s = []"
  shows "tempo s' = tempo s"
proof (cases "itr s + 1 < length (bytes s)")
  case False
  with assms(1) show ?thesis by (subst (asm) read_events.simps) simp
next
  case True
  with assms(1) have c: "continue_from (reset_counters s) = Inr s'"
    unfolding continue_from_def by (subst (asm) read_events.simps) simp
  from assms(2) True
  have "\<forall>t \<in> set (dispatch_points (reset_counters s)). is_track_start t \<longrightarrow> track_set_tempos t = []"
    by (auto simp: set_tempo_events_def track_starts_def decode_points_def)
  from continue_from_tempo [OF c this] show ?thesis by (simp add: reset_counters_def)
qed

text \<open>
  Claim C10. If the decode of a buffer succeeds and no pass of any track loop handles
  a Set Tempo meta event (the list \<open>set_tempo_events\<close> of the run is empty), the
  tempo of the object, and with it the tempo of the exported song, is the
  \<^verbatim>\<open>default_tempo\<close> given to the constructor, 120 when none was given: nothing but
  the \<open>0x51\<close> branch of \<^verbatim>\<open>read_midi_meta_event\<close> writes the field.
\<close>

theorem tempo_default_without_set_tempo:
  assumes "MidiFile_init content default_tempo = Inr s"
    and "set_tempo_events (MidiFile_new content default_tempo) = []"
  shows "tempo s = (case default_tempo of None \<Rightarrow> 120 | Some t \<Rightarrow> t) \<and>
         song_tempo (fst (snd (process_notes s))) = (case default_tempo of None \<Rightarrow> 120 | Some t \<Rightarrow> t)"
proof -
  from assms have "tempo s = tempo (MidiFile_new content default_tempo)"
    unfolding MidiFile_init_def by (rule read_events_tempo)
  then show ?thesis by (simp add: MidiFile_new_def process_notes_def Let_def)
qed

theorem tempo_default_without_set_tempo_witness:
  "set_tempo_events (MidiFile_new two_tracks (Some 90)) = [] \<and>
   map_sum id tempo (MidiFile_init two_tracks (Some 90)) = Inr 90 \<and>
   map_sum id (\<lambda>s. song_tempo (fst (snd (process_notes s)))) (MidiFile_init two_tracks (Some 90))
     = Inr 90 \<and>
   set_tempo_events (MidiFile_new two_tracks None) = [] \<and>
   map_sum id tempo (MidiFile_init two_tracks None) = Inr 120"
proof -
  have e: "set_tempo_events (MidiFile_new two_tracks (Some 90)) = []" by code_simp
  have "isl (MidiFile_init two_tracks (Some 90)) = False" by code_simp
  then obtain s where i: "MidiFile_init two_tracks (Some 90) = Inr s"
    by (cases "MidiFile_init two_tracks (Some 90)") auto
  have e': "set_tempo_events (MidiFile_new two_tracks None) = []" by code_simp
  have "isl (MidiFile_init two_tracks None) = False" by code_simp
  then obtain s' where i': "MidiFile_init two_tracks None = Inr s'"
    by (cases "MidiFile_init two_tracks None") auto
  from tempo_default_without_set_tempo [OF i e] tempo_default_without_set_tempo [OF i' e']
    e i e' i'
  show ?thesis by simp
qed

section \<open>Decoder state across track chunks\<close>

lemma read_mthd_decoder_state: "decoder_state (read_mthd s) = decoder_state s"
  by (simp add: read_mthd_def get_int_def decoder_state_def)

lemma dispatch_decoder_state:
  "dispatch t = Inr s' \<Longrightarrow> \<not> is_track_start t \<Longrightarrow> decoder_state s' = decoder_state t"
  by (auto simp: dispatch_def is_track_start_def read_mthd_decoder_state split: if_splits)

lemma dispatch_track_start: "is_track_start t \<Longrightarrow> dispatch t = read_mtrk t"
  by (simp add: dispatch_def is_track_start_def)

lemma reset_counters_decoder_state: "decoder_state (reset_counters s) = decoder_state s"
  by (simp add: reset_counters_def decoder_state_def)

lemma carried_over_Cons:
  "carried_over (a # ts) \<longleftrightarrow>
     (ts = [] \<or>
      ((case read_mtrk a of Inl e \<Rightarrow> False | Inr e \<Rightarrow> decoder_state (hd ts) = decoder_state e) \<and>
       carried_over ts))"
  by (cases ts) (auto split: sum.splits)

lemma track_starts_from:
  "carried_over (filter is_track_start (dispatch_points s)) \<and>
   (filter is_track_start (dispatch_points s) \<noteq> [] \<longrightarrow>
      decoder_state (hd (filter is_track_start (dispatch_points s))) = decoder_state s)"
proof (induction s rule: dispatch_points.induct)
  case (1 s)
  consider (pass) s1 s2 where "scan_cond s" "scan_byte s = Inr s1" "dispatch s1 = Inr s2"
    | (fail) s1 e where "scan_cond s" "scan_byte s = Inr s1" "dispatch s1 = Inl e"
    | (nobyte) e where "scan_cond s" "scan_byte s = Inl e"
    | (again) "\<not> scan_cond s" "itr s + 1 < length (bytes s)"
    | (stop) "\<not> scan_cond s" "\<not> itr s + 1 < length (bytes s)"
    by (cases "scan_byte s"; cases "dispatch (projr (scan_byte s))") auto
  then show ?case
  proof cases
    case pass
    then have pts: "dispatch_points s = s1 # dispatch_points s2"
      by (subst dispatch_points.simps) simp
    from scan_byte_tempo [OF pass(2)] have ds1: "decoder_state s1 = decoder_state s" by simp
    from "1.IH"(1) [OF pass] have ih: "carried_over (filter is_track_start (dispatch_points s2))"
      "filter is_track_start (dispatch_points s2) \<noteq> [] \<longrightarrow>
        decoder_state (hd (filter is_track_start (dispatch_points s2))) = decoder_state s2"
      by simp_all
    show ?thesis
    proof (cases "is_track_start s1")
      case True
      with pass(3) have "read_mtrk s1 = Inr s2" by (simp add: dispatch_track_start)
      with True pts ds1 ih show ?thesis by (auto simp: carried_over_Cons)
    next
      case False
      with dispatch_decoder_state [OF pass(3)] have "decoder_state s2 = decoder_state s1" by simp
      with False pts ds1 ih show ?thesis by simp
    qed
  next
    case fail
    then have pts: "dispatch_points s = [s1]" by (subst dispatch_points.simps) simp
    from scan_byte_tempo [OF fail(2)] have "decoder_state s1 = decoder_state s" by simp
    with pts show ?thesis by simp
  next
    case nobyte
    then have "dispatch_points s = []" by (subst dispatch_points.simps) simp
    then show ?thesis by simp
  next
    case again
    then have "dispatch_points s = dispatch_points (reset_counters s)"
      by (subst dispatch_points.simps) simp
    with "1.IH"(2) [OF again] show ?thesis by (simp add: reset_counters_decoder_state)
  next
    case stop
    then have "dispatch_points s = []" by (subst dispatch_points.simps) simp
    then show ?thesis by simp
  qed
qed

lemma carried_over_nth:
  "carried_over ts \<Longrightarrow> Suc k < length ts \<Longrightarrow>
     \<exists>e. read_mtrk (ts ! k) = Inr e \<and> decoder_state (ts ! Suc k) = decoder_state e"
proof (induction ts arbitrary: k rule: carried_over.induct)
  case (1 a b rest)
  then show ?case by (cases k) (auto split: sum.splits)
qed simp_all

text \<open>
  For every file: the track loop of the first track chunk starts with the accumulator
  at 0 and the running status cleared, and the track loop of every later track chunk
  starts with the values that \<^verbatim>\<open>read_mtrk\<close> left at the end of the track chunk
  before.
\<close>

lemma decoder_state_carried_over:
  "(track_starts (MidiFile_new content default_tempo) \<noteq> [] \<longrightarrow>
      decoder_state (snd (get_int (hd (track_starts (MidiFile_new content default_tempo))) 4))
        = (0, - 1, False)) \<and>
   (\<forall>k. Suc k < length (track_starts (MidiFile_new content default_tempo)) \<longrightarrow>
      (\<exists>e. read_mtrk (track_starts (MidiFile_new content default_tempo) ! k) = Inr e \<and>
           decoder_state (snd (get_int (track_starts (MidiFile_new content default_tempo) ! Suc k) 4))
             = decoder_state e))"
proof -
  have frame: "decoder_state (snd (get_int t 4)) = decoder_state t" for t
    by (simp add: get_int_def decoder_state_def)
  show ?thesis
  proof (cases "itr (MidiFile_new content default_tempo) + 1
      < length (bytes (MidiFile_new content default_tempo))")
    case False
    then show ?thesis by (simp add: track_starts_def decode_points_def)
  next
    case True
    let ?s = "reset_counters (MidiFile_new content default_tempo)"
    from True have ts: "track_starts (MidiFile_new content default_tempo)
        = filter is_track_start (dispatch_points ?s)"
      by (simp add: track_starts_def decode_points_def)
    have "decoder_state ?s = (0, - 1, False)"
      by (simp add: reset_counters_def decoder_state_def MidiFile_new_def)
    with track_starts_from [of ?s] carried_over_nth [of "filter is_track_start (dispatch_points ?s)"]
    show ?thesis unfolding ts frame by auto
  qed
qed

text \<open>
  Claim C5 fails on the code. \<^verbatim>\<open>read_mtrk\<close> reads the length and runs the track loop
  in the state it was called in: it resets neither the accumulator nor the running
  status. In \<open>two_tracks\<close> the first track chunk ends at tick 96 after a note-off, and
  the first pass of the second track loop runs with the accumulator at 96 and the
  running status \<open>0x80\<close> set. The note-on of the second track, at delta 0, is stored
  and exported at time 1 (96 ticks at 96 per quarter note) instead of 0; decoded from
  a fresh state, the same chunk gives time 0.
\<close>

theorem track_state_carried_into_next_track:
  "read_mtrk t = read_midi_track_event (snd (get_int t 4)) (fst (get_int t 4)) \<and>
   decoder_state (snd (get_int t 4)) = decoder_state t \<and>
   map decoder_state (track_starts (MidiFile_new two_tracks None))
     = [(0, - 1, False), (96, 0x80, True)] \<and>
   map (\<lambda>t. map decoder_state (take 1 (track_loop_passes t)))
       (track_starts (MidiFile_new two_tracks None))
     = [[(0, - 1, False)], [(96, 0x80, True)]] \<and>
   map_sum id midi_notes (MidiFile_init two_tracks None) = Inr [(0, ''q''), (1, ''e'')] \<and>
   map_sum id (\<lambda>s. song_notes (fst (snd (process_notes s)))) (MidiFile_init two_tracks None)
     = Inr [(0, ''q''), (1, ''e'')] \<and>
   map_sum id midi_notes
     (read_mtrk (fresh_decoder_state (track_starts (MidiFile_new two_tracks None) ! 1)))
     = Inr [(0, ''q''), (0, ''e'')]"
proof -
  have "read_mtrk t = read_midi_track_event (snd (get_int t 4)) (fst (get_int t 4))"
    by (simp add: read_mtrk_def split: prod.splits)
  moreover have "decoder_state (snd (get_int t 4)) = decoder_state t"
    by (simp add: get_int_def decoder_state_def)
  moreover have "map decoder_state (track_starts (MidiFile_new two_tracks None))
     = [(0, - 1, False), (96, 0x80, True)]"
    by code_simp
  moreover have "map (\<lambda>t. map decoder_state (take 1 (track_loop_passes t)))
       (track_starts (MidiFile_new two_tracks None))
     = [[(0, - 1, False)], [(96, 0x80, True)]]"
    by code_simp
  moreover have "map_sum id midi_notes (MidiFile_init two_tracks None)
     = Inr [(0, ''q''), (1, ''e'')]"
    by code_simp
  moreover have "map_sum id (\<lambda>s. song_notes (fst (snd (process_notes s))))
       (MidiFile_init two_tracks None)
     = Inr [(0, ''q''), (1, ''e'')]"
    by code_simp
  moreover have "map_sum id midi_notes
     (read_mtrk (fresh_decoder_state (track_starts (MidiFile_new two_tracks None) ! 1)))
     = Inr [(0, ''q''), (0, ''e'')]"
    by code_simp
  ultimately show ?thesis by blast
qed

section \<open>Where the code departs from the specification\<close>

text \<open>
  Claim C1 fails on the code. The handler multiplies the payload by 0.00024 instead of
  dividing 60000000 by it; the two agree at 500000 microseconds per quarter note
  (120) and nowhere far from it. For the payload \<open>0F 42 40\<close> (1000000, which is 60
  beats per minute) the code stores and exports the tempo 240.
\<close>

theorem set_tempo_multiplies:
  "set_tempo_value 1000000 = 240 \<and>
   round_half_even (60000000 / 1000000) = 60 \<and>
   map_sum id tempo (MidiFile_init slow_tempo_file None) = Inr 240 \<and>
   map_sum id (\<lambda>s. song_tempo (fst (snd (process_notes s)))) (MidiFile_init slow_tempo_file None)
     = Inr 240 \<and>
   set_tempo_value 500000 = 120"
  by code_simp

text \<open>
  Claim C2 fails on the code. The text branch of \<^verbatim>\<open>read_midi_meta_event\<close> is
  \<^verbatim>\<open>pass\<close>: for the track name "AB" (type byte at offset 24, length field at 25,
  payload at 26 and 27) the handler leaves the cursor at 26, not at 28. The branch for
  other types does advance: with the type byte replaced by \<open>0x7F\<close> the cursor is left
  at 28. Decoding the whole file then reads the payload as events and loses the
  note-on that follows.
\<close>

theorem text_payload_not_consumed:
  "map_sum id (\<lambda>r. (fst r, itr (snd r)))
     (read_midi_meta_event ((MidiFile_new text_event_file None)\<lparr>itr := 24\<rparr>) 0) = Inr (True, 26) \<and>
   map_sum id (\<lambda>r. (fst r, itr (snd r)))
     (read_midi_meta_event ((MidiFile_new (text_event_file[24 := 0x7F]) None)\<lparr>itr := 24\<rparr>) 0)
     = Inr (True, 28) \<and>
   map_sum id midi_notes (MidiFile_init text_event_file None) = Inr []"
  by code_simp

lemma flag_shifted_out: "drop_bit 16 (dv AND 0x8000) = (0 :: int)"
proof -
  have "0 \<le> dv AND 0x8000" by simp
  moreover have "dv AND 0x8000 \<le> 0x8000" by (rule AND_upper2) simp
  ultimately show ?thesis by (simp add: drop_bit_eq_div)
qed

text \<open>
  Claim C6 fails on the code. \<^verbatim>\<open>(div & 0x8000) >> 16\<close> shifts the flag out: the decoded
  \<open>division_type\<close> is 0 for every header, also when bit 15 of the division is set, as in
  a file with the division \<open>0xE728\<close>. The low 15 bits are stored as the claim says.
\<close>

theorem division_type_always_zero:
  "division_type (read_mthd s) = 0 \<and>
   map_sum id (\<lambda>s. (division_type s, division s)) (MidiFile_init smpte_file None)
     = Inr (0, 0x6728)"
proof -
  have "division_type (read_mthd s) = 0"
    by (simp add: read_mthd_def get_int_def flag_shifted_out)
  moreover have "map_sum id (\<lambda>s. (division_type s, division s)) (MidiFile_init smpte_file None)
     = Inr (0, 0x6728)"
    by code_simp
  ultimately show ?thesis by simp
qed

text \<open>
  Claim C7 fails on the code. A file whose only track holds nothing but the end of
  track decodes without error to an empty note list; \<^verbatim>\<open>process_notes\<close> then writes
  the song and \<^verbatim>\<open>generate_piano_sheet\<close> raises \<^verbatim>\<open>IndexError\<close> at \<^verbatim>\<open>self.notes[0][0]\<close>.
\<close>

theorem empty_song_raises:
  "map_sum id (\<lambda>s. (midi_notes s, snd (snd (process_notes s)))) (MidiFile_init silent_file None)
     = Inr ([], Inl IndexError)"
  by code_simp

end
